theory Spec2Isabelle
  imports Complex_Main "HOL-Library.Sublist"
begin

section \<open>Host-language values: numbers and strings\<close>

text \<open>
  A JavaScript number is modelled as a value or \<open>NaN\<close>. Timestamps and second counts
  are integer valued (\<open>int jsnumber\<close>); the keyword position inside a segment is a
  fraction (\<open>rat jsnumber\<close>). Arithmetic is exact: the rounding of IEEE doubles is not
  modelled, so the model agrees with the program on integers up to \<open>2 ^ 53\<close> and on
  fractions whose operations are exact in binary. Strings are lists of 8-bit characters; case
  mapping covers the ASCII letters.
\<close>

datatype 'a jsnumber = Val 'a | NaN

fun jsPlus :: "('a::plus) jsnumber \<Rightarrow> 'a jsnumber \<Rightarrow> 'a jsnumber" where
  "jsPlus (Val a) (Val b) = Val (a + b)"
| "jsPlus _ _ = NaN"

fun jsMinus :: "('a::minus) jsnumber \<Rightarrow> 'a jsnumber \<Rightarrow> 'a jsnumber" where
  "jsMinus (Val a) (Val b) = Val (a - b)"
| "jsMinus _ _ = NaN"

fun jsTimes :: "('a::times) jsnumber \<Rightarrow> 'a jsnumber \<Rightarrow> 'a jsnumber" where
  "jsTimes (Val a) (Val b) = Val (a * b)"
| "jsTimes _ _ = NaN"

fun jsMap :: "('a \<Rightarrow> 'b) \<Rightarrow> 'a jsnumber \<Rightarrow> 'b jsnumber" where
  "jsMap f (Val a) = Val (f a)"
| "jsMap f NaN = NaN"

text \<open>\<open>x > 0\<close>: every comparison with \<open>NaN\<close> is false.\<close>

fun jsPositive :: "int jsnumber \<Rightarrow> bool" where
  "jsPositive (Val a) = (0 < a)"
| "jsPositive NaN = False"

text \<open>The remainder operator \<open>%\<close> truncates: its result has the sign of the dividend.\<close>

definition jsRemainder :: "int \<Rightarrow> int \<Rightarrow> int" where
  "jsRemainder a b = sgn a * (\<bar>a\<bar> mod \<bar>b\<bar>)"

text \<open>\<open>Math.round\<close> rounds to the nearest integer, halves towards plus infinity.\<close>

fun Math_round :: "rat jsnumber \<Rightarrow> int jsnumber" where
  "Math_round (Val x) = Val \<lfloor>x + 1 / 2\<rfloor>"
| "Math_round NaN = NaN"

definition digitChar :: "nat \<Rightarrow> char" where
  "digitChar d = ''0123456789'' ! d"

definition isDigit :: "char \<Rightarrow> bool" where
  "isDigit c = (c \<in> set ''0123456789'')"

definition digitVal :: "char \<Rightarrow> nat" where
  "digitVal c = of_char c - 48"

function natToString :: "nat \<Rightarrow> string" where
  "natToString n =
     (if n < 10 then [digitChar n] else natToString (n div 10) @ [digitChar (n mod 10)])"
  by pat_completeness auto
termination
  by (relation "measure id") auto

declare natToString.simps [simp del]

text \<open>\<open>toString\<close> of an integer-valued number, and of \<open>NaN\<close>.\<close>

fun toString :: "int jsnumber \<Rightarrow> string" where
  "toString (Val i) = (if i < 0 then CHR ''-'' # natToString (nat (- i)) else natToString (nat i))"
| "toString NaN = ''NaN''"

text \<open>\<open>s.padStart(n, "0")\<close>.\<close>

definition padStart :: "string \<Rightarrow> nat \<Rightarrow> string" where
  "padStart s n = replicate (n - length s) CHR ''0'' @ s"

text \<open>
  \<open>Number(s)\<close> on the strings a timestamp is made of: a run of decimal digits is its
  decimal value and the empty string is 0. Every other string is mapped to \<open>NaN\<close>; the
  signed, fractional, exponent and radix-prefixed literals that JavaScript also converts
  are not timestamps and are outside the model.
\<close>

definition decimalValue :: "string \<Rightarrow> nat" where
  "decimalValue s = foldl (\<lambda>acc c. 10 * acc + digitVal c) 0 s"

definition Number :: "string \<Rightarrow> int jsnumber" where
  "Number s = (if list_all isDigit s then Val (int (decimalValue s)) else NaN)"

definition toLowerChar :: "char \<Rightarrow> char" where
  "toLowerChar c =
     (let n = (of_char c :: nat) in if 65 \<le> n \<and> n \<le> 90 then char_of (n + 32) else c)"

definition toUpperChar :: "char \<Rightarrow> char" where
  "toUpperChar c =
     (let n = (of_char c :: nat) in if 97 \<le> n \<and> n \<le> 122 then char_of (n - 32) else c)"

definition toLowerCase :: "string \<Rightarrow> string" where
  "toLowerCase s = map toLowerChar s"

text \<open>\<open>s.split(c)\<close>: always at least one part.\<close>

fun str_split :: "char \<Rightarrow> string \<Rightarrow> string list" where
  "str_split c [] = [] # []"
| "str_split c (x # xs) =
     (if x = c then [] # str_split c xs
      else (case str_split c xs of [] \<Rightarrow> [x] # [] | p # ps \<Rightarrow> (x # p) # ps))"

text \<open>\<open>t.includes(k)\<close> and \<open>t.indexOf(k)\<close> (\<open>-1\<close> when \<open>k\<close> does not occur).\<close>

fun str_includes :: "string \<Rightarrow> string \<Rightarrow> bool" where
  "str_includes [] k = (k = [])"
| "str_includes (c # cs) k = (prefix k (c # cs) \<or> str_includes cs k)"

fun indexOfFrom :: "nat \<Rightarrow> string \<Rightarrow> string \<Rightarrow> int" where
  "indexOfFrom i [] k = (if k = [] then int i else - 1)"
| "indexOfFrom i (c # cs) k = (if prefix k (c # cs) then int i else indexOfFrom (Suc i) cs k)"

definition indexOf :: "string \<Rightarrow> string \<Rightarrow> int" where
  "indexOf t k = indexOfFrom 0 t k"

section \<open>TimeCodec: \<open>timestampToSeconds\<close>, \<open>secondsToTimestamp\<close>\<close>

definition timestampToSeconds :: "string \<Rightarrow> int jsnumber" where
  "timestampToSeconds timestamp =
     (case map Number (str_split CHR '':'' timestamp) of
        [h, m, s] \<Rightarrow> jsPlus (jsPlus (jsTimes h (Val 3600)) (jsTimes m (Val 60))) s
      | [m, s] \<Rightarrow> jsPlus (jsTimes m (Val 60)) s
      | _ \<Rightarrow> Val 0)"

definition secondsToTimestamp :: "int jsnumber \<Rightarrow> string" where
  "secondsToTimestamp seconds =
     (let hours = jsMap (\<lambda>s. s div 3600) seconds;
          minutes = jsMap (\<lambda>s. jsRemainder s 3600 div 60) seconds;
          secs = jsMap (\<lambda>s. jsRemainder s 60) seconds
      in if jsPositive hours
         then padStart (toString hours) 2 @ '':'' @ padStart (toString minutes) 2 @ '':'' @
              padStart (toString secs) 2
         else padStart (toString minutes) 2 @ '':'' @ padStart (toString secs) 2)"

text \<open>The largest integer below which every integer is a double: \<open>2 ^ 53\<close>.\<close>

definition safeInteger :: "nat \<Rightarrow> bool" where
  "safeInteger s = (s < 2 ^ 53)"

section \<open>Keyword matching\<close>

definition estimateKeywordPosition :: "string \<Rightarrow> string \<Rightarrow> rat jsnumber" where
  "estimateKeywordPosition txt keyword =
     (let keywordLower = toLowerCase keyword;
          textLower = toLowerCase txt;
          keywordIndex = indexOf textLower keywordLower
      in if keywordIndex = - 1 then Val 0
         else if length textLower = 0 then NaN
         else Val (of_int keywordIndex / of_nat (length textLower)))"

subsection \<open>The word-boundary pattern\<close>

text \<open>
  The pattern \<open>(^|[^a-zA-Z0-9])K([^a-zA-Z0-9]|$)\<close> with flag \<open>i\<close>, where \<open>K\<close> is the
  lower-cased keyword after \<open>replace(/[-\/\\^$*+?.()|[\]{}]/g, "\\$&")\<close>. The pattern
  language is the fragment the program uses: a character, the class \<open>[^a-zA-Z0-9]\<close>, the
  two anchors and alternation. A pattern is a sequence of such items.
\<close>

datatype rx = Chr char | NotAlnum | Bol | Eol | Alt rx rx

definition backslash :: char where
  "backslash = CHR 0x5C"

definition escapedChars :: string where
  "escapedChars = ''-/'' @ [backslash] @ ''^$*+?.()|[]{}''"

definition syntaxChars :: string where
  "syntaxChars = ''^$'' @ [backslash] @ ''.*+?()[]{}|''"

definition escapeRegExp :: "string \<Rightarrow> string" where
  "escapeRegExp s = concat (map (\<lambda>c. if c \<in> set escapedChars then [backslash, c] else [c]) s)"

text \<open>
  Reading the escaped keyword back as pattern text: a backslash before one of the escaped
  characters is that character, any other character that is not a syntax character is
  itself, and anything else is not in the fragment (\<open>None\<close>).
\<close>

fun parsePattern :: "string \<Rightarrow> rx list option" where
  "parsePattern [] = Some []"
| "parsePattern [c] = (if c \<in> set syntaxChars then None else Some [Chr c])"
| "parsePattern (c # d # ds) =
     (if c = backslash
      then (if d \<in> set escapedChars then map_option ((#) (Chr d)) (parsePattern ds) else None)
      else if c \<in> set syntaxChars then None
      else map_option ((#) (Chr c)) (parsePattern (d # ds)))"

definition keywordRegex :: "string \<Rightarrow> rx list option" where
  "keywordRegex keywordLower =
     map_option (\<lambda>body. [Alt Bol NotAlnum] @ body @ [Alt NotAlnum Eol])
       (parsePattern (escapeRegExp keywordLower))"

definition isAlnum :: "char \<Rightarrow> bool" where
  "isAlnum c =
     (let n = (of_char c :: nat)
      in (97 \<le> n \<and> n \<le> 122) \<or> (65 \<le> n \<and> n \<le> 90) \<or> (48 \<le> n \<and> n \<le> 57))"

text \<open>
  Backtracking match of a sequence of items in \<open>s\<close> from position \<open>p\<close>. With flag \<open>i\<close>
  two characters match when their upper-case forms agree.
\<close>

fun rxMatch :: "rx list \<Rightarrow> string \<Rightarrow> nat \<Rightarrow> bool" where
  "rxMatch [] s p = True"
| "rxMatch (Chr c # rs) s p =
     (p < length s \<and> toUpperChar (s ! p) = toUpperChar c \<and> rxMatch rs s (Suc p))"
| "rxMatch (NotAlnum # rs) s p = (p < length s \<and> \<not> isAlnum (s ! p) \<and> rxMatch rs s (Suc p))"
| "rxMatch (Bol # rs) s p = (p = 0 \<and> rxMatch rs s p)"
| "rxMatch (Eol # rs) s p = (p = length s \<and> rxMatch rs s p)"
| "rxMatch (Alt a b # rs) s p = (rxMatch (a # rs) s p \<or> rxMatch (b # rs) s p)"

text \<open>\<open>regex.test(s)\<close>: a match starting at some position of \<open>s\<close>.\<close>

definition rxTest :: "rx list \<Rightarrow> string \<Rightarrow> bool" where
  "rxTest rs s = list_ex (rxMatch rs s) [0..<Suc (length s)]"

text \<open>
  The match decision of the inner loop. \<open>new RegExp\<close> raises on a malformed pattern, which
  is the \<open>None\<close> case here; lemma \<open>keywordRegex_defined\<close> below shows it does not occur.
\<close>

definition keywordFound :: "bool \<Rightarrow> string \<Rightarrow> string \<Rightarrow> bool" where
  "keywordFound exactPhraseSearch keyword segment_text =
     (let segmentText = toLowerCase segment_text;
          keywordLower = toLowerCase keyword
      in if exactPhraseSearch then str_includes segmentText keywordLower
         else (case keywordRegex keywordLower of
                 Some re \<Rightarrow> rxTest re segmentText
               | None \<Rightarrow> False))"


subsection \<open>Segments and matches\<close>

record segment =
  seg_timestamp :: string
  seg_text :: string

record keyword_match =
  keyword :: string
  originalTimestamp :: string
  preciseTimestamp :: string
  preciseTimeSeconds :: "int jsnumber"
  match_text :: string
  url :: string

text \<open>Start, end and duration of segment \<open>i\<close>, as the outer loop computes them.\<close>

definition startTimeSeconds :: "segment list \<Rightarrow> nat \<Rightarrow> int jsnumber" where
  "startTimeSeconds segments i = timestampToSeconds (seg_timestamp (segments ! i))"

definition endTimeSeconds :: "segment list \<Rightarrow> nat \<Rightarrow> int jsnumber" where
  "endTimeSeconds segments i =
     (if int i < int (length segments) - 1
      then timestampToSeconds (seg_timestamp (segments ! (i + 1)))
      else jsPlus (startTimeSeconds segments i) (Val 5))"

definition segmentDuration :: "segment list \<Rightarrow> nat \<Rightarrow> int jsnumber" where
  "segmentDuration segments i = jsMinus (endTimeSeconds segments i) (startTimeSeconds segments i)"

definition computePreciseTimeSeconds ::
  "int jsnumber \<Rightarrow> rat jsnumber \<Rightarrow> int jsnumber \<Rightarrow> int jsnumber" where
  "computePreciseTimeSeconds start keywordPosition duration =
     Math_round (jsPlus (jsMap of_int start) (jsTimes keywordPosition (jsMap of_int duration)))"

text \<open>The match pushed for one keyword found in segment \<open>i\<close>.\<close>

definition makeMatch :: "string \<Rightarrow> segment list \<Rightarrow> nat \<Rightarrow> string \<Rightarrow> keyword_match" where
  "makeMatch videoUrl segments i kw =
     (let seg = segments ! i;
          keywordPosition = estimateKeywordPosition (seg_text seg) kw;
          precise = computePreciseTimeSeconds (startTimeSeconds segments i) keywordPosition
                      (segmentDuration segments i)
      in \<lparr> keyword = kw,
           originalTimestamp = seg_timestamp seg,
           preciseTimestamp = secondsToTimestamp precise,
           preciseTimeSeconds = precise,
           match_text = seg_text seg,
           url = videoUrl @ ''&t='' @ toString precise \<rparr>)"

text \<open>The nested iteration: segments by index, keywords in their given order.\<close>

definition segmentMatches ::
  "string \<Rightarrow> string list \<Rightarrow> bool \<Rightarrow> segment list \<Rightarrow> nat \<Rightarrow> keyword_match list" where
  "segmentMatches videoUrl keywords exactPhraseSearch segments i =
     concat (map (\<lambda>kw. if keywordFound exactPhraseSearch kw (seg_text (segments ! i))
                        then [makeMatch videoUrl segments i kw] else [])
                 keywords)"

definition keywordMatches ::
  "string \<Rightarrow> string list \<Rightarrow> bool \<Rightarrow> segment list \<Rightarrow> keyword_match list" where
  "keywordMatches videoUrl keywords exactPhraseSearch segments =
     concat (map (segmentMatches videoUrl keywords exactPhraseSearch segments)
                 [0..<length segments])"

text \<open>
  Deduplication: the key is the string \<open>`${preciseTimeSeconds}:${text}`\<close>; the state is the
  set of keys seen and the array built so far.
\<close>

definition matchKey :: "keyword_match \<Rightarrow> string" where
  "matchKey m = toString (preciseTimeSeconds m) @ '':'' @ match_text m"

definition uniqueStep ::
  "string set \<times> keyword_match list \<Rightarrow> keyword_match \<Rightarrow> string set \<times> keyword_match list" where
  "uniqueStep st m =
     (case st of (seenCombinations, uniqueMatches) \<Rightarrow>
        if matchKey m \<notin> seenCombinations
        then (insert (matchKey m) seenCombinations, uniqueMatches @ [m])
        else (seenCombinations, uniqueMatches))"

definition uniqueMatches :: "keyword_match list \<Rightarrow> keyword_match list" where
  "uniqueMatches ms = snd (foldl uniqueStep ({}, []) ms)"

section \<open>Collecting candidate links\<close>

text \<open>
  An anchor element, of which the program reads only \<open>href\<close>. The document is what
  \<open>document.querySelectorAll\<close> answers for a selector.
\<close>

record element =
  href :: string

type_synonym document = "string \<Rightarrow> element list"

definition quote :: char where
  "quote = CHR 0x27"

definition selectors :: "string list" where
  "selectors =
     [''a#video-title'',
      ''a.ytd-video-renderer'',
      ''a.yt-simple-endpoint'',
      ''ytd-video-renderer a'',
      ''ytd-compact-video-renderer a'',
      ''a[href*='' @ [quote] @ ''/watch?v='' @ [quote] @ '']'']"

definition validElement :: "element \<Rightarrow> bool" where
  "validElement el =
     (href el \<noteq> [] \<and> (str_includes (href el) ''/watch?v='' \<or> str_includes (href el) ''/shorts/''))"

text \<open>
  The selector cascade. The third argument and second result is the list of selectors
  handed to \<open>querySelectorAll\<close> so far, in order.
\<close>

fun getAllVideoElementsFrom ::
  "document \<Rightarrow> string list \<Rightarrow> string list \<Rightarrow> element list \<times> string list" where
  "getAllVideoElementsFrom doc [] queried = ([], queried)"
| "getAllVideoElementsFrom doc (selector # rest) queried =
     (let found = doc selector;
          validElements = filter validElement found
      in if length validElements > 0 then (validElements, queried @ [selector])
         else getAllVideoElementsFrom doc rest (queried @ [selector]))"

definition getAllVideoElements :: "document \<Rightarrow> element list" where
  "getAllVideoElements doc = fst (getAllVideoElementsFrom doc selectors [])"

text \<open>
  The scroll loop. \<open>pages k\<close> is the document as the \<open>k\<close>-th query after the initial one
  finds it, that is after \<open>k\<close> rounds of scrolling and waiting; \<open>pages 0\<close> is the document
  of the initial query.
\<close>

record scroll_state =
  videoElements :: "element list"
  previousLength :: nat
  scrollAttempts :: nat
  consecutiveNoChangeCount :: nat

definition maxScrollAttempts :: nat where
  "maxScrollAttempts = 20"

definition maxConsecutiveNoChanges :: nat where
  "maxConsecutiveNoChanges = 3"

definition scrollStep :: "(nat \<Rightarrow> document) \<Rightarrow> scroll_state \<Rightarrow> scroll_state" where
  "scrollStep pages st =
     (let previous = length (videoElements st);
          elements = getAllVideoElements (pages (Suc (scrollAttempts st)))
      in \<lparr> videoElements = elements,
           previousLength = previous,
           scrollAttempts = scrollAttempts st + 1,
           consecutiveNoChangeCount =
             (if length elements = previous then consecutiveNoChangeCount st + 1 else 0) \<rparr>)"

definition scrollCondition :: "scroll_state \<Rightarrow> bool" where
  "scrollCondition st =
     (length (videoElements st) < 100 \<and> scrollAttempts st < maxScrollAttempts \<and>
      consecutiveNoChangeCount st < maxConsecutiveNoChanges)"

function scrollLoop :: "(nat \<Rightarrow> document) \<Rightarrow> scroll_state \<Rightarrow> scroll_state" where
  "scrollLoop pages st = (if scrollCondition st then scrollLoop pages (scrollStep pages st) else st)"
  by pat_completeness auto
termination
  by (relation "measure (\<lambda>(pages, st). maxScrollAttempts - scrollAttempts st)")
     (auto simp: scrollCondition_def scrollStep_def Let_def)

declare scrollLoop.simps [simp del]

definition initialScrollState :: "(nat \<Rightarrow> document) \<Rightarrow> scroll_state" where
  "initialScrollState pages =
     \<lparr> videoElements = getAllVideoElements (pages 0), previousLength = 0, scrollAttempts = 0,
       consecutiveNoChangeCount = 0 \<rparr>"

text \<open>Deduplication of the links: the set of URLs seen and the array built so far.\<close>

definition linkStep :: "string set \<times> string list \<Rightarrow> element \<Rightarrow> string set \<times> string list" where
  "linkStep st a =
     (case st of (uniqueUrls, uniqueLinks) \<Rightarrow>
        if href a \<noteq> [] \<and> href a \<notin> uniqueUrls
        then (insert (href a) uniqueUrls, uniqueLinks @ [href a])
        else (uniqueUrls, uniqueLinks))"

definition uniqueLinks :: "element list \<Rightarrow> string list" where
  "uniqueLinks elements = snd (foldl linkStep ({}, []) elements)"

definition collectVideoLinks :: "(nat \<Rightarrow> document) \<Rightarrow> string list" where
  "collectVideoLinks pages =
     take 100 (uniqueLinks (videoElements (scrollLoop pages (initialScrollState pages))))"

text \<open>The order of first occurrence, stated without the loop: the last occurrences of the reversed list.\<close>

definition firstOccurrences :: "'a list \<Rightarrow> 'a list" where
  "firstOccurrences xs = rev (remdups (rev xs))"

section \<open>Processing the candidates\<close>

text \<open>
  What the browser part of one candidate's processing comes to: an exception with its
  message (\<open>Inl\<close>), one of the \<open>continue\<close> exits, or a transcript panel with the video id,
  the title and the segments read from it.
\<close>

datatype acquisition = Skipped | Panel string string "segment list"

type_synonym browser = "string \<Rightarrow> string + acquisition"

record video_result =
  videoId :: string
  videoTitle :: string
  result_url :: string
  matches :: "keyword_match list"

record run_state =
  transcriptResults :: "video_result list"
  console :: "string list"

text \<open>The body of the \<open>try\<close> block: an exception, or the result to append, if any.\<close>

definition processVideo ::
  "browser \<Rightarrow> string list \<Rightarrow> bool \<Rightarrow> string \<Rightarrow> string + video_result option" where
  "processVideo browse keywords exactPhraseSearch videoUrl =
     (case browse videoUrl of
        Inl message \<Rightarrow> Inl message
      | Inr Skipped \<Rightarrow> Inr None
      | Inr (Panel vid title segments) \<Rightarrow>
          if length segments = 0 then Inr None
          else (let unique = uniqueMatches
                      (keywordMatches videoUrl keywords exactPhraseSearch segments)
                in if length unique > 0
                   then Inr (Some \<lparr> videoId = vid, videoTitle = title, result_url = videoUrl,
                                    matches = unique \<rparr>)
                   else Inr None))"

text \<open>
  One iteration of the loop over the links, with its \<open>catch\<close>. Of the console only the
  line that opens an iteration and the line of the \<open>catch\<close> are kept.
\<close>

definition candidateStep ::
  "browser \<Rightarrow> string list \<Rightarrow> bool \<Rightarrow> run_state \<Rightarrow> string \<Rightarrow> run_state" where
  "candidateStep browse keywords exactPhraseSearch st videoUrl =
     (let st1 = st\<lparr>console := console st @ [''Processing: '' @ videoUrl]\<rparr>
      in case processVideo browse keywords exactPhraseSearch videoUrl of
           Inl message \<Rightarrow>
             st1\<lparr>console := console st1 @ [''Error processing '' @ videoUrl @ '': '' @ message]\<rparr>
         | Inr None \<Rightarrow> st1
         | Inr (Some r) \<Rightarrow> st1\<lparr>transcriptResults := transcriptResults st1 @ [r]\<rparr>)"

definition processCandidates ::
  "browser \<Rightarrow> string list \<Rightarrow> bool \<Rightarrow> string list \<Rightarrow> run_state" where
  "processCandidates browse keywords exactPhraseSearch videoLinks =
     foldl (candidateStep browse keywords exactPhraseSearch)
       \<lparr> transcriptResults = [], console = [] \<rparr> videoLinks"

text \<open>What one candidate adds to the console and to the results.\<close>

definition candidateLines :: "browser \<Rightarrow> string list \<Rightarrow> bool \<Rightarrow> string \<Rightarrow> string list" where
  "candidateLines browse keywords exactPhraseSearch videoUrl =
     (''Processing: '' @ videoUrl) #
     (case processVideo browse keywords exactPhraseSearch videoUrl of
        Inl message \<Rightarrow> [''Error processing '' @ videoUrl @ '': '' @ message]
      | Inr _ \<Rightarrow> [])"

definition candidateResults ::
  "browser \<Rightarrow> string list \<Rightarrow> bool \<Rightarrow> string \<Rightarrow> video_result list" where
  "candidateResults browse keywords exactPhraseSearch videoUrl =
     (case processVideo browse keywords exactPhraseSearch videoUrl of
        Inr (Some r) \<Rightarrow> [r]
      | _ \<Rightarrow> [])"

section \<open>Auxiliary definitions\<close>

text \<open>
  The matches that deduplication keeps, given the keys already seen; and an occurrence of
  \<open>k\<close> in \<open>s\<close> at position \<open>q\<close>, compared as the pattern compares, with a boundary on
  each side.
\<close>

fun keepFirst :: "string set \<Rightarrow> keyword_match list \<Rightarrow> keyword_match list" where
  "keepFirst S [] = []"
| "keepFirst S (m # ms) =
     (if matchKey m \<in> S then keepFirst S ms else m # keepFirst (insert (matchKey m) S) ms)"


subsection \<open>Example inputs\<close>

text \<open>
  A document where the first two selectors find nothing valid, the third finds two videos
  among three links and the fourth would find another one; a listing that answers every query
  with the same four links, one of them twice; and a listing that holds 100 videos from the
  start.
\<close>

definition exampleDocument :: document where
  "exampleDocument sel =
     (if sel = ''a.yt-simple-endpoint''
      then [\<lparr>href = ''/about''\<rparr>, \<lparr>href = ''/watch?v=abc''\<rparr>, \<lparr>href = ''/shorts/xyz''\<rparr>]
      else if sel = ''ytd-video-renderer a'' then [\<lparr>href = ''/watch?v=later''\<rparr>]
      else if sel = ''a.ytd-video-renderer'' then [\<lparr>href = ''/channel/c''\<rparr>, \<lparr>href = []\<rparr>]
      else [])"

definition steadyPages :: "nat \<Rightarrow> document" where
  "steadyPages k sel =
     (if sel = ''a#video-title''
      then [\<lparr>href = ''/watch?v=a''\<rparr>, \<lparr>href = ''/watch?v=b''\<rparr>, \<lparr>href = ''/watch?v=a''\<rparr>,
            \<lparr>href = ''/shorts/c''\<rparr>]
      else [])"

definition fullPages :: "nat \<Rightarrow> document" where
  "fullPages k sel = map (\<lambda>i. \<lparr>href = ''/watch?v='' @ natToString i\<rparr>) [0..<100]"

text \<open>
  Transcripts: one in order, one whose second segment starts before the first, one whose
  two segments start at the same second. A short-form link, which has no query string, and a
  browser for which one link raises and the short-form link yields the ordered transcript.
\<close>

definition orderedSegments :: "segment list" where
  "orderedSegments =
     [\<lparr>seg_timestamp = ''00:10'', seg_text = ''the quick agent runs''\<rparr>,
      \<lparr>seg_timestamp = ''00:20'', seg_text = ''an ai agent appeared''\<rparr>]"



definition shortsUrl :: string where
  "shortsUrl = ''https://www.youtube.com/shorts/abc''"

definition failingUrl :: string where
  "failingUrl = ''https://www.youtube.com/watch?v=bad''"

definition exampleBrowser :: browser where
  "exampleBrowser videoUrl =
     (if videoUrl = failingUrl then Inl ''Navigation timeout of 30000 ms exceeded''
      else if videoUrl = shortsUrl then Inr (Panel ''abc'' ''A title'' orderedSegments)
      else Inr Skipped)"

section \<open>Lemmas\<close>

subsection \<open>Decimal digits\<close>

lemma digit_cases: "d < 10 \<Longrightarrow> d \<in> {0,1,2,3,4,5,6,7,8,9::nat}"
  by auto

lemma digitVal_digitChar: "d < 10 \<Longrightarrow> digitVal (digitChar d) = d"
  using digit_cases[of d] by (auto simp: digitVal_def digitChar_def)

lemma isDigit_digitChar: "d < 10 \<Longrightarrow> isDigit (digitChar d)"
  using digit_cases[of d] by (auto simp: isDigit_def digitChar_def)

lemma isDigit_natToString: "list_all isDigit (natToString n)"
proof (induction n rule: natToString.induct)
  case (1 n)
  show ?case
  proof (cases "n < 10")
    case True
    then show ?thesis by (simp add: natToString.simps[of n] isDigit_digitChar)
  next
    case False
    with 1 show ?thesis by (simp add: natToString.simps[of n] isDigit_digitChar)
  qed
qed

lemma decimalValue_snoc: "decimalValue (s @ [c]) = 10 * decimalValue s + digitVal c"
  by (simp add: decimalValue_def)

lemma decimalValue_natToString: "decimalValue (natToString n) = n"
proof (induction n rule: natToString.induct)
  case (1 n)
  show ?case
  proof (cases "n < 10")
    case True
    then show ?thesis
      by (simp add: natToString.simps[of n] decimalValue_def digitVal_digitChar)
  next
    case False
    with 1 have "decimalValue (natToString (n div 10)) = n div 10" by simp
    with False show ?thesis
      by (simp add: natToString.simps[of n] decimalValue_snoc digitVal_digitChar)
  qed
qed

lemma decimalValue_zeros: "decimalValue (replicate k CHR ''0'' @ s) = decimalValue s"
  unfolding decimalValue_def by (induction k) (simp_all add: digitVal_def)

lemma Number_digits: "list_all isDigit s \<Longrightarrow> Number s = Val (int (decimalValue s))"
  by (simp add: Number_def decimalValue_def)

lemma Number_padStart_natToString: "Number (padStart (natToString n) k) = Val (int n)"
proof -
  have z: "isDigit CHR ''0''" by (simp add: isDigit_def)
  have "list_all isDigit (padStart (natToString n) k)"
    using isDigit_natToString[of n] by (auto simp: padStart_def list_all_iff z)
  then show ?thesis
    by (simp add: Number_digits) (simp add: padStart_def decimalValue_zeros decimalValue_natToString)
qed

lemma natToString_nonempty: "natToString n \<noteq> []"
  by (subst natToString.simps) simp

lemma natToString_inj: "natToString a = natToString b \<Longrightarrow> a = b"
  by (metis decimalValue_natToString)

lemma natToString_hd_digit: "isDigit (hd (natToString n))"
  using isDigit_natToString[of n] natToString_nonempty[of n]
  by (cases "natToString n") simp_all

subsection \<open>Splitting and formatting timestamps\<close>

lemma str_split_no_sep: "c \<notin> set s \<Longrightarrow> str_split c s = [s]"
  by (induction s) auto

lemma str_split_append: "c \<notin> set a \<Longrightarrow> str_split c (a @ c # b) = a # str_split c b"
  by (induction a) auto

lemma colon_natToString: "CHR '':'' \<notin> set (padStart (natToString n) k)"
proof -
  have z: "isDigit CHR ''0''" by (simp add: isDigit_def)
  have "\<not> isDigit CHR '':''" by (simp add: isDigit_def)
  then show ?thesis
    using isDigit_natToString[of n] by (auto simp: padStart_def list_all_iff z)
qed

lemma jsRemainder_nat: "0 < m \<Longrightarrow> jsRemainder (int s) (int m) = int (s mod m)"
  by (cases "s = 0") (simp_all add: jsRemainder_def zmod_int)

lemma secondsToTimestamp_nat:
  "secondsToTimestamp (Val (int s)) =
     (if 0 < s div 3600
      then padStart (natToString (s div 3600)) 2 @ '':'' @
           padStart (natToString (s mod 3600 div 60)) 2 @ '':'' @
           padStart (natToString (s mod 60)) 2
      else padStart (natToString (s mod 3600 div 60)) 2 @ '':'' @
           padStart (natToString (s mod 60)) 2)"
proof -
  have h: "jsMap (\<lambda>s. s div 3600) (Val (int s)) = Val (int (s div 3600))"
    by (simp add: zdiv_int)
  have m: "jsMap (\<lambda>s. jsRemainder s 3600 div 60) (Val (int s)) = Val (int (s mod 3600 div 60))"
    using jsRemainder_nat[of 3600 s] by (simp add: zdiv_int)
  have sc: "jsMap (\<lambda>s. jsRemainder s 60) (Val (int s)) = Val (int (s mod 60))"
    using jsRemainder_nat[of 60 s] by simp
  have ts: "\<And>k. toString (Val (int k)) = natToString k" by simp
  have pos: "\<And>k. jsPositive (Val (int k)) = (0 < k)" by simp
  show ?thesis
    unfolding secondsToTimestamp_def Let_def h m sc ts pos by (rule refl)
qed

lemma timestampToSeconds_three:
  "timestampToSeconds (padStart (natToString h) 2 @ '':'' @ padStart (natToString m) 2 @ '':'' @
      padStart (natToString s) 2) = Val (int h * 3600 + int m * 60 + int s)"
  by (simp add: timestampToSeconds_def str_split_append str_split_no_sep colon_natToString
      Number_padStart_natToString)

lemma timestampToSeconds_two:
  "timestampToSeconds (padStart (natToString m) 2 @ '':'' @ padStart (natToString s) 2) =
     Val (int m * 60 + int s)"
  by (simp add: timestampToSeconds_def str_split_append str_split_no_sep colon_natToString
      Number_padStart_natToString)

lemma hms_decompose:
  "int (s div 3600) * 3600 + int (s mod 3600 div 60) * 60 + int (s mod 60) = int s"
proof -
  have e1: "s div 3600 * 3600 + s mod 3600 = s" by simp
  have e2: "s mod 3600 div 60 * 60 + s mod 3600 mod 60 = s mod 3600" by simp
  have e3: "s mod 3600 mod 60 = s mod 60" by (simp add: mod_mod_cancel)
  from e1 e2 e3 have "s div 3600 * 3600 + s mod 3600 div 60 * 60 + s mod 60 = s"
    by linarith
  then have "int (s div 3600 * 3600 + s mod 3600 div 60 * 60 + s mod 60) = int s"
    by (rule arg_cong)
  then show ?thesis
    by (simp only: of_nat_add of_nat_mult of_nat_numeral)
qed

subsection \<open>Printing numbers\<close>

lemma toString_Val_not_NaN: "toString (Val a) \<noteq> ''NaN''"
proof
  assume e: "toString (Val a) = ''NaN''"
  have nd: "\<not> isDigit CHR ''N''" by (simp add: isDigit_def)
  show False
  proof (cases "a < 0")
    case True
    with e show False by simp
  next
    case False
    with e have "hd (natToString (nat a)) = CHR ''N''" by simp
    with nd natToString_hd_digit[of "nat a"] show False by simp
  qed
qed

lemma toString_minus_not_nat: "CHR ''-'' # s \<noteq> natToString n"
proof
  assume "CHR ''-'' # s = natToString n"
  then have "hd (natToString n) = CHR ''-''" by (metis list.sel(1))
  moreover have "\<not> isDigit CHR ''-''" by (simp add: isDigit_def)
  ultimately show False using natToString_hd_digit[of n] by simp
qed

lemma toString_inj: "toString x = toString y \<Longrightarrow> x = y"
proof (cases x; cases y)
  fix a b assume x: "x = Val a" and y: "y = Val b" and e: "toString x = toString y"
  show "x = y"
  proof (cases "a < 0"; cases "b < 0")
    assume "a < 0" "b < 0"
    with e x y have "nat (- a) = nat (- b)" by (auto dest: natToString_inj)
    with \<open>a < 0\<close> \<open>b < 0\<close> x y show ?thesis by simp
  next
    assume "a < 0" "\<not> b < 0"
    with e x y toString_minus_not_nat[of "natToString (nat (- a))" "nat b"] show ?thesis by simp
  next
    assume "\<not> a < 0" "b < 0"
    with e x y toString_minus_not_nat[of "natToString (nat (- b))" "nat a"] show ?thesis by simp
  next
    assume "\<not> a < 0" "\<not> b < 0"
    with e x y have "nat a = nat b" by (auto dest: natToString_inj)
    with \<open>\<not> a < 0\<close> \<open>\<not> b < 0\<close> x y show ?thesis by simp
  qed
next
  fix a assume "x = Val a" "y = NaN" "toString x = toString y"
  with toString_Val_not_NaN[of a] show "x = y" by simp
next
  fix b assume "x = NaN" "y = Val b" "toString x = toString y"
  with toString_Val_not_NaN[of b] show "x = y" by simp
next
  assume "x = NaN" "y = NaN"
  then show "x = y" by simp
qed

lemma toString_chars: "c \<in> set (toString x) \<Longrightarrow> isDigit c \<or> c \<in> set ''-NaN''"
  using isDigit_natToString[of "nat (- (case x of Val i \<Rightarrow> i | NaN \<Rightarrow> 0))"]
        isDigit_natToString[of "nat (case x of Val i \<Rightarrow> i | NaN \<Rightarrow> 0)"]
  by (cases x) (auto simp: list_all_iff split: if_splits)

lemma toString_no_colon: "CHR '':'' \<notin> set (toString x)"
  using toString_chars[of "CHR '':''" x] by (auto simp: isDigit_def)

lemma toString_no_question: "CHR ''?'' \<notin> set (toString x)"
  using toString_chars[of "CHR ''?''" x] by (auto simp: isDigit_def)


subsection \<open>The selector cascade and the links\<close>

lemma cascade_all_empty:
  "\<forall>s\<in>set sels. filter validElement (doc s) = [] \<Longrightarrow>
   getAllVideoElementsFrom doc sels q = ([], q @ sels)"
  by (induction sels arbitrary: q) simp_all

lemma cascade_first:
  "i < length sels \<Longrightarrow> filter validElement (doc (sels ! i)) \<noteq> [] \<Longrightarrow>
   \<forall>j<i. filter validElement (doc (sels ! j)) = [] \<Longrightarrow>
   getAllVideoElementsFrom doc sels q = (filter validElement (doc (sels ! i)), q @ take (Suc i) sels)"
proof (induction sels arbitrary: i q)
  case Nil
  then show ?case by simp
next
  case (Cons s sels)
  show ?case
  proof (cases i)
    case 0
    with Cons.prems show ?thesis by (simp add: Let_def)
  next
    case (Suc k)
    with Cons.prems have e: "filter validElement (doc s) = []" by auto
    from Suc Cons.prems have k: "k < length sels" "filter validElement (doc (sels ! k)) \<noteq> []"
      by auto
    from Suc Cons.prems have "\<forall>j<k. filter validElement (doc (sels ! j)) = []"
      by (metis Suc_less_eq nth_Cons_Suc)
    from Cons.IH[OF k this, of "q @ [s]"] e Suc show ?thesis by (simp add: Let_def)
  qed
qed

lemma validElement_getAll: "e \<in> set (getAllVideoElements doc) \<Longrightarrow> validElement e"
proof -
  have "\<And>q. e \<in> set (fst (getAllVideoElementsFrom doc sels q)) \<Longrightarrow> validElement e" for sels
    by (induction sels) (auto simp: Let_def split: if_splits)
  then show "e \<in> set (getAllVideoElements doc) \<Longrightarrow> validElement e"
    unfolding getAllVideoElements_def by blast
qed

lemma remdups_snoc: "remdups (ys @ [x]) = filter (\<lambda>y. y \<noteq> x) (remdups ys) @ [x]"
  by (induction ys) auto

lemma firstOccurrences_Nil: "firstOccurrences [] = []"
  by (simp add: firstOccurrences_def)

lemma firstOccurrences_Cons:
  "firstOccurrences (x # xs) = x # filter (\<lambda>y. y \<noteq> x) (firstOccurrences xs)"
  by (simp add: firstOccurrences_def remdups_snoc rev_filter)

lemma distinct_firstOccurrences: "distinct (firstOccurrences xs)"
  by (simp add: firstOccurrences_def)

lemma set_firstOccurrences: "set (firstOccurrences xs) = set xs"
  by (simp add: firstOccurrences_def)

lemma foldl_linkStep:
  "foldl linkStep (S, out) els =
     (S \<union> set (filter (\<lambda>u. u \<noteq> []) (map href els)),
      out @ filter (\<lambda>u. u \<notin> S) (firstOccurrences (filter (\<lambda>u. u \<noteq> []) (map href els))))"
proof (induction els arbitrary: S out)
  case Nil
  then show ?case by (simp add: firstOccurrences_Nil)
next
  case (Cons a els)
  let ?hs = "firstOccurrences (filter (\<lambda>u. u \<noteq> []) (map href els))"
  have f: "filter (\<lambda>u. u \<notin> insert (href a) S) ?hs =
           filter (\<lambda>u. u \<notin> S) (filter (\<lambda>y. y \<noteq> href a) ?hs)"
    by (simp add: conj_commute)
  show ?case
  proof (cases "href a \<noteq> [] \<and> href a \<notin> S")
    case True
    then have "linkStep (S, out) a = (insert (href a) S, out @ [href a])"
      by (simp add: linkStep_def)
    with True show ?thesis
      by (simp add: Cons.IH firstOccurrences_Cons f)
  next
    case False
    then have st: "linkStep (S, out) a = (S, out)"
      by (auto simp: linkStep_def)
    show ?thesis
    proof (cases "href a = []")
      case True
      with st show ?thesis by (simp add: Cons.IH)
    next
      case ne: False
      with False have m: "href a \<in> S" by simp
      have "filter (\<lambda>u. u \<notin> S) (filter (\<lambda>y. y \<noteq> href a) ?hs) = filter (\<lambda>u. u \<notin> S) ?hs"
        using m by (auto intro: filter_cong)
      with ne m st show ?thesis
        by (simp add: Cons.IH firstOccurrences_Cons insert_absorb)
    qed
  qed
qed

lemma uniqueLinks_firstOccurrences:
  "uniqueLinks els = firstOccurrences (filter (\<lambda>u. u \<noteq> []) (map href els))"
  by (simp add: uniqueLinks_def foldl_linkStep)

lemma scrollLoop_same_size:
  assumes same: "\<forall>k. length (getAllVideoElements (pages k)) = length (getAllVideoElements (pages 0))"
    and small: "length (getAllVideoElements (pages 0)) < 100"
  shows "scrollLoop pages (initialScrollState pages) =
     \<lparr> videoElements = getAllVideoElements (pages 3),
       previousLength = length (getAllVideoElements (pages 0)),
       scrollAttempts = 3, consecutiveNoChangeCount = 3 \<rparr>"
proof -
  let ?n = "length (getAllVideoElements (pages 0))"
  let ?st = "\<lambda>p k. \<lparr> videoElements = getAllVideoElements (pages k), previousLength = p,
                      scrollAttempts = k, consecutiveNoChangeCount = k \<rparr>"
  have later: "\<And>k. length (getAllVideoElements (pages (Suc k))) = ?n"
    using same by blast
  have step0: "scrollStep pages (?st 0 0) = ?st ?n (Suc 0)"
    by (simp add: scrollStep_def Let_def later)
  have step: "\<And>k. scrollStep pages (?st ?n (Suc k)) = ?st ?n (Suc (Suc k))"
    by (simp add: scrollStep_def Let_def later)
  have go0: "scrollCondition (?st 0 0)"
    using small by (simp add: scrollCondition_def maxScrollAttempts_def maxConsecutiveNoChanges_def)
  have go: "\<And>k. Suc k < 3 \<Longrightarrow> scrollCondition (?st ?n (Suc k))"
    using small
    by (simp add: scrollCondition_def maxScrollAttempts_def maxConsecutiveNoChanges_def later)
  have stop: "\<not> scrollCondition (?st ?n (Suc (Suc (Suc 0))))"
    by (simp add: scrollCondition_def maxConsecutiveNoChanges_def)
  have "scrollLoop pages (?st 0 0) = scrollLoop pages (?st ?n (Suc 0))"
    using go0 step0 by (subst scrollLoop.simps) simp
  also have "\<dots> = scrollLoop pages (?st ?n (Suc (Suc 0)))"
    using go[of 0] step[of 0] by (subst scrollLoop.simps) simp
  also have "\<dots> = scrollLoop pages (?st ?n (Suc (Suc (Suc 0))))"
    using go[of "Suc 0"] step[of "Suc 0"] by (subst scrollLoop.simps) simp
  also have "\<dots> = ?st ?n (Suc (Suc (Suc 0)))"
    using stop by (subst scrollLoop.simps) simp
  finally show ?thesis by (simp add: initialScrollState_def numeral_3_eq_3)
qed

lemma steady_elements:
  "getAllVideoElements (steadyPages k) =
     [\<lparr>href = ''/watch?v=a''\<rparr>, \<lparr>href = ''/watch?v=b''\<rparr>, \<lparr>href = ''/watch?v=a''\<rparr>,
      \<lparr>href = ''/shorts/c''\<rparr>]"
  by code_simp

lemma fullPages_elements:
  "getAllVideoElements (fullPages k) = fullPages k ''a#video-title''
   \<and> length (fullPages k ''a#video-title'') = 100"
proof -
  have "\<forall>e\<in>set (fullPages k ''a#video-title''). validElement e"
    by (auto simp: fullPages_def validElement_def)
  then have f: "filter validElement (fullPages k ''a#video-title'') = fullPages k ''a#video-title''"
    by (rule filter_True)
  have l: "length (fullPages k ''a#video-title'') = 100"
    by (simp add: fullPages_def)
  have s0: "0 < length selectors" "selectors ! 0 = ''a#video-title''"
    by (simp_all add: selectors_def)
  from f l s0 have ne: "filter validElement (fullPages k (selectors ! 0)) \<noteq> []"
    by auto
  from cascade_first[of 0 selectors "fullPages k" "[]"] ne f l s0 show ?thesis
    by (simp add: getAllVideoElements_def)
qed

subsection \<open>Case mapping and the pattern\<close>








lemma parsePattern_escaped:
  "d \<in> set escapedChars \<Longrightarrow>
   parsePattern (backslash # d # rest) = map_option ((#) (Chr d)) (parsePattern rest)"
  by simp










subsection \<open>Matches and their deduplication\<close>

lemma set_keywordMatches:
  "m \<in> set (keywordMatches videoUrl keywords exact segments) \<longleftrightarrow>
     (\<exists>i<length segments. \<exists>kw\<in>set keywords.
        keywordFound exact kw (seg_text (segments ! i)) \<and> m = makeMatch videoUrl segments i kw)"
  by (auto simp: keywordMatches_def segmentMatches_def split: if_splits)

lemma foldl_uniqueStep:
  "foldl uniqueStep (S, out) ms = (S \<union> matchKey ` set ms, out @ keepFirst S ms)"
proof (induction ms arbitrary: S out)
  case Nil
  then show ?case by simp
next
  case (Cons m ms)
  show ?case
  proof (cases "matchKey m \<in> S")
    case True
    then have "uniqueStep (S, out) m = (S, out)" by (simp add: uniqueStep_def)
    with True show ?thesis by (simp add: Cons.IH insert_absorb)
  next
    case False
    then have "uniqueStep (S, out) m = (insert (matchKey m) S, out @ [m])"
      by (simp add: uniqueStep_def)
    with False show ?thesis by (simp add: Cons.IH)
  qed
qed

lemma uniqueMatches_keepFirst: "uniqueMatches ms = keepFirst {} ms"
  by (simp add: uniqueMatches_def foldl_uniqueStep)

lemma subseq_keepFirst: "subseq (keepFirst S ms) ms"
  by (induction ms arbitrary: S) auto

lemma filter_keepFirst:
  "filter (\<lambda>x. matchKey x = k) (keepFirst S ms) =
     (if k \<in> S then [] else take 1 (filter (\<lambda>x. matchKey x = k) ms))"
proof (induction ms arbitrary: S)
  case Nil
  then show ?case by simp
next
  case (Cons m ms)
  show ?case
  proof (cases "matchKey m \<in> S")
    case True
    then show ?thesis by (auto simp: Cons.IH)
  next
    case False
    then show ?thesis by (auto simp: Cons.IH)
  qed
qed

lemma set_uniqueMatches: "set (uniqueMatches ms) \<subseteq> set ms"
  using list_emb_set[OF subseq_keepFirst[of "{}" ms]] by (auto simp: uniqueMatches_keepFirst)

lemma matchKey_eq_iff:
  "matchKey a = matchKey b \<longleftrightarrow>
     preciseTimeSeconds a = preciseTimeSeconds b \<and> match_text a = match_text b"
proof
  assume e: "matchKey a = matchKey b"
  have "str_split CHR '':'' (matchKey a) =
          toString (preciseTimeSeconds a) # str_split CHR '':'' (match_text a)"
    by (simp add: matchKey_def str_split_append toString_no_colon)
  moreover have "str_split CHR '':'' (matchKey b) =
          toString (preciseTimeSeconds b) # str_split CHR '':'' (match_text b)"
    by (simp add: matchKey_def str_split_append toString_no_colon)
  ultimately have t: "toString (preciseTimeSeconds a) = toString (preciseTimeSeconds b)"
    using e by simp
  with e have "match_text a = match_text b" by (simp add: matchKey_def)
  with t show "preciseTimeSeconds a = preciseTimeSeconds b \<and> match_text a = match_text b"
    by (simp add: toString_inj)
next
  assume "preciseTimeSeconds a = preciseTimeSeconds b \<and> match_text a = match_text b"
  then show "matchKey a = matchKey b" by (simp add: matchKey_def)
qed



lemma ordered_matches:
  "uniqueMatches (keywordMatches shortsUrl [''ai agent'', ''ai''] False orderedSegments) =
     [\<lparr>keyword = ''ai agent'', originalTimestamp = ''00:20'', preciseTimestamp = ''00:21'',
       preciseTimeSeconds = Val 21, match_text = ''an ai agent appeared'',
       url = ''https://www.youtube.com/shorts/abc&t=21''\<rparr>]"
  by code_simp

subsection \<open>The loop over the candidates\<close>

lemma foldl_candidateStep:
  "foldl (candidateStep browse keywords exact) st links =
     \<lparr> transcriptResults =
         transcriptResults st @ concat (map (candidateResults browse keywords exact) links),
       console = console st @ concat (map (candidateLines browse keywords exact) links) \<rparr>"
proof (induction links arbitrary: st)
  case Nil
  then show ?case by simp
next
  case (Cons u links)
  have "candidateStep browse keywords exact st u =
     \<lparr> transcriptResults = transcriptResults st @ candidateResults browse keywords exact u,
       console = console st @ candidateLines browse keywords exact u \<rparr>"
    by (simp add: candidateStep_def candidateResults_def candidateLines_def Let_def
        split: sum.splits option.splits)
  then show ?case by (simp add: Cons.IH)
qed

lemma processCandidates_concat:
  "console (processCandidates browse keywords exact links) =
     concat (map (candidateLines browse keywords exact) links)
   \<and> transcriptResults (processCandidates browse keywords exact links) =
     concat (map (candidateResults browse keywords exact) links)"
  by (simp add: processCandidates_def foldl_candidateStep)

section \<open>The claims\<close>




text \<open>
  Claim C2. Deduplication keeps the matches in the order they were found, and of all the
  matches with one pair of precise seconds and text it retains exactly the first, whatever
  their keywords.
\<close>

theorem dedup_keeps_first_seen:
  "subseq (uniqueMatches ms) ms \<and>
   filter (\<lambda>x. preciseTimeSeconds x = p \<and> match_text x = t) (uniqueMatches ms) =
     take 1 (filter (\<lambda>x. preciseTimeSeconds x = p \<and> match_text x = t) ms)"
proof -
  let ?k = "\<lparr>keyword = [], originalTimestamp = [], preciseTimestamp = [],
             preciseTimeSeconds = p, match_text = t, url = []\<rparr>"
  have "\<And>x. (matchKey x = matchKey ?k) = (preciseTimeSeconds x = p \<and> match_text x = t)"
    by (simp add: matchKey_eq_iff)
  with filter_keepFirst[of "matchKey ?k" "{}" ms] show ?thesis
    by (simp add: uniqueMatches_keepFirst subseq_keepFirst)
qed

text \<open>
  C2 at a segment where the keywords \<open>ai agent\<close> and \<open>ai\<close> both match at second 21: one
  match is retained, that of the first keyword.
\<close>

theorem dedup_keeps_first_seen_witness:
  "map keyword (keywordMatches shortsUrl [''ai agent'', ''ai''] False orderedSegments)
     = [''ai agent'', ''ai'']
   \<and> map preciseTimeSeconds (keywordMatches shortsUrl [''ai agent'', ''ai''] False orderedSegments)
     = [Val 21, Val 21]
   \<and> map keyword (filter (\<lambda>x. preciseTimeSeconds x = Val 21 \<and> match_text x = ''an ai agent appeared'')
        (uniqueMatches (keywordMatches shortsUrl [''ai agent'', ''ai''] False orderedSegments)))
     = [''ai agent'']"
proof -
  let ?X = "keywordMatches shortsUrl [''ai agent'', ''ai''] False orderedSegments"
  let ?P = "\<lambda>x. preciseTimeSeconds x = Val 21 \<and> match_text x = ''an ai agent appeared''"
  have a: "map keyword ?X = [''ai agent'', ''ai'']" by code_simp
  have b: "map preciseTimeSeconds ?X = [Val 21, Val 21]" by code_simp
  have c: "map keyword (take 1 (filter ?P ?X)) = [''ai agent'']" by code_simp
  from dedup_keeps_first_seen[of ?X "Val 21" "''an ai agent appeared''"]
  have e: "filter ?P (uniqueMatches ?X) = take 1 (filter ?P ?X)" by (rule conjunct2)
  from c have "map keyword (filter ?P (uniqueMatches ?X)) = [''ai agent'']" by (simp only: e)
  with a b show ?thesis by blast
qed

text \<open>
  Claim C3. Formatting a non-negative integer of seconds below \<open>2 ^ 53\<close> and parsing the
  result gives the integer back.
\<close>

theorem parse_format_roundtrip:
  "safeInteger s \<Longrightarrow> timestampToSeconds (secondsToTimestamp (Val (int s))) = Val (int s)"
proof (cases "0 < s div 3600")
  case True
  then show ?thesis
    by (simp only: secondsToTimestamp_nat timestampToSeconds_three if_True hms_decompose)
next
  case False
  then have "s div 3600 = 0" by simp
  with hms_decompose[of s] have "int (s mod 3600 div 60) * 60 + int (s mod 60) = int s"
    by simp
  with False show ?thesis
    by (simp only: secondsToTimestamp_nat timestampToSeconds_two if_False)
qed

text \<open>C3 at 0, 5, 59, 60, 3599, 3600 and 7325 seconds.\<close>

theorem parse_format_roundtrip_witness:
  "timestampToSeconds (secondsToTimestamp (Val 0)) = Val 0 \<and>
   timestampToSeconds (secondsToTimestamp (Val 5)) = Val 5 \<and>
   timestampToSeconds (secondsToTimestamp (Val 59)) = Val 59 \<and>
   timestampToSeconds (secondsToTimestamp (Val 60)) = Val 60 \<and>
   timestampToSeconds (secondsToTimestamp (Val 3599)) = Val 3599 \<and>
   timestampToSeconds (secondsToTimestamp (Val 3600)) = Val 3600 \<and>
   timestampToSeconds (secondsToTimestamp (Val 7325)) = Val 7325 \<and>
   secondsToTimestamp (Val 7325) = ''02:02:05''"
proof -
  have f: "secondsToTimestamp (Val 7325) = ''02:02:05''" by code_simp
  show ?thesis
    using parse_format_roundtrip[of 0] parse_format_roundtrip[of 5] parse_format_roundtrip[of 59]
      parse_format_roundtrip[of 60] parse_format_roundtrip[of 3599]
      parse_format_roundtrip[of 3600] parse_format_roundtrip[of 7325] f
    by (simp add: safeInteger_def)
qed

text \<open>
  Claim C4, as the code has it. When every query finds as many elements as the initial one,
  and fewer than 100, the loop ends after exactly three iterations, each without a change,
  and the links returned are those of the last query in the order of first occurrence; when
  that query finds the initial elements, every initial link is returned.
\<close>

theorem same_size_stops_after_three:
  assumes "\<forall>k. length (getAllVideoElements (pages k)) = length (getAllVideoElements (pages 0))"
    and "length (getAllVideoElements (pages 0)) < 100"
  shows "scrollAttempts (scrollLoop pages (initialScrollState pages)) = 3
    \<and> consecutiveNoChangeCount (scrollLoop pages (initialScrollState pages)) = 3
    \<and> collectVideoLinks pages = firstOccurrences (map href (getAllVideoElements (pages 3)))
    \<and> (getAllVideoElements (pages 3) = getAllVideoElements (pages 0) \<longrightarrow>
         set (collectVideoLinks pages) = href ` set (getAllVideoElements (pages 0)))"
proof -
  let ?els = "getAllVideoElements (pages 3)"
  have ne: "filter (\<lambda>u. u \<noteq> []) (map href ?els) = map href ?els"
    using validElement_getAll[of _ "pages 3"] by (auto simp: validElement_def filter_id_conv)
  have "length (firstOccurrences (map href ?els)) \<le> length ?els"
    by (metis distinct_firstOccurrences set_firstOccurrences distinct_card card_length length_map)
  moreover from assms have "length ?els < 100"
    by (metis (no_types))
  ultimately have tk:
    "take 100 (firstOccurrences (map href ?els)) = firstOccurrences (map href ?els)"
    by simp
  have links: "collectVideoLinks pages = firstOccurrences (map href ?els)"
    by (simp add: collectVideoLinks_def scrollLoop_same_size[OF assms] uniqueLinks_firstOccurrences ne tk)
  have "getAllVideoElements (pages 3) = getAllVideoElements (pages 0) \<longrightarrow>
         set (collectVideoLinks pages) = href ` set (getAllVideoElements (pages 0))"
    by (simp add: links set_firstOccurrences)
  with links show ?thesis
    by (simp add: scrollLoop_same_size[OF assms])
qed

text \<open>C4 at a listing of four links that never changes.\<close>

theorem same_size_stops_after_three_witness:
  "scrollAttempts (scrollLoop steadyPages (initialScrollState steadyPages)) = 3
   \<and> consecutiveNoChangeCount (scrollLoop steadyPages (initialScrollState steadyPages)) = 3
   \<and> collectVideoLinks steadyPages = [''/watch?v=a'', ''/watch?v=b'', ''/shorts/c'']
   \<and> set (collectVideoLinks steadyPages) = href ` set (getAllVideoElements (steadyPages 0))"
proof -
  have a: "\<forall>k. length (getAllVideoElements (steadyPages k)) =
      length (getAllVideoElements (steadyPages 0))"
    by (simp add: steady_elements)
  have b: "length (getAllVideoElements (steadyPages 0)) < 100"
    by (simp add: steady_elements)
  have c: "firstOccurrences (map href (getAllVideoElements (steadyPages 3))) =
      [''/watch?v=a'', ''/watch?v=b'', ''/shorts/c'']"
    by code_simp
  have d: "getAllVideoElements (steadyPages 3) = getAllVideoElements (steadyPages 0)"
    by (simp add: steady_elements)
  note t = same_size_stops_after_three[OF a b]
  from t d have s: "set (collectVideoLinks steadyPages) =
      href ` set (getAllVideoElements (steadyPages 0))" by blast
  from t have l: "collectVideoLinks steadyPages =
      firstOccurrences (map href (getAllVideoElements (steadyPages 3)))" by blast
  from l c have l': "collectVideoLinks steadyPages = [''/watch?v=a'', ''/watch?v=b'', ''/shorts/c'']"
    by (rule trans)
  from t s l' show ?thesis by blast
qed

text \<open>
  C4 as stated fails for a listing that never grows and holds 100 elements from the start:
  the loop condition is false at once and no iteration runs.
\<close>

theorem full_page_counterexample:
  "length (getAllVideoElements (fullPages 0)) = 100
   \<and> getAllVideoElements (fullPages 1) = getAllVideoElements (fullPages 0)
   \<and> scrollAttempts (scrollLoop fullPages (initialScrollState fullPages)) = 0"
proof -
  have "\<not> scrollCondition (initialScrollState fullPages)"
    by (simp add: scrollCondition_def initialScrollState_def fullPages_elements)
  then have "scrollLoop fullPages (initialScrollState fullPages) = initialScrollState fullPages"
    by (subst scrollLoop.simps) simp
  moreover have "fullPages 1 = fullPages 0"
    by (rule ext) (simp add: fullPages_def)
  ultimately show ?thesis
    by (simp add: fullPages_elements initialScrollState_def)
qed

text \<open>
  Claim C5. The links returned have no duplicates, are at most 100, and are the first 100
  of the links of the elements found, in the order of their first occurrence.
\<close>

theorem collected_links_unique:
  "distinct (collectVideoLinks pages) \<and> length (collectVideoLinks pages) \<le> 100 \<and>
   collectVideoLinks pages =
     take 100 (firstOccurrences (filter (\<lambda>u. u \<noteq> [])
       (map href (videoElements (scrollLoop pages (initialScrollState pages))))))"
  by (simp add: collectVideoLinks_def uniqueLinks_firstOccurrences distinct_firstOccurrences)

text \<open>C5 at a listing in which one link occurs twice.\<close>

theorem collected_links_unique_witness:
  "collectVideoLinks steadyPages = [''/watch?v=a'', ''/watch?v=b'', ''/shorts/c'']
   \<and> map href (videoElements (scrollLoop steadyPages (initialScrollState steadyPages))) =
       [''/watch?v=a'', ''/watch?v=b'', ''/watch?v=a'', ''/shorts/c'']"
proof -
  have a: "map href (videoElements (scrollLoop steadyPages (initialScrollState steadyPages))) =
       [''/watch?v=a'', ''/watch?v=b'', ''/watch?v=a'', ''/shorts/c'']" by code_simp
  have b: "take 100 (firstOccurrences (filter (\<lambda>u. u \<noteq> [])
       [''/watch?v=a'', ''/watch?v=b'', ''/watch?v=a'', ''/shorts/c''])) =
       [''/watch?v=a'', ''/watch?v=b'', ''/shorts/c'']" by code_simp
  from collected_links_unique[of steadyPages]
  have "collectVideoLinks steadyPages = take 100 (firstOccurrences (filter (\<lambda>u. u \<noteq> [])
       (map href (videoElements (scrollLoop steadyPages (initialScrollState steadyPages))))))"
    by blast
  then have "collectVideoLinks steadyPages = [''/watch?v=a'', ''/watch?v=b'', ''/shorts/c'']"
    by (simp only: a b)
  with a show ?thesis by blast
qed

text \<open>
  Claim C6. The cascade queries the selectors in order and returns the valid elements of the
  first selector that has any, having queried no selector after it; when no selector has a
  valid element it returns the empty list, having queried them all. The function is total.
\<close>

theorem selector_cascade:
  "(i < length sels \<and> filter validElement (doc (sels ! i)) \<noteq> [] \<and>
      (\<forall>j<i. filter validElement (doc (sels ! j)) = [])
    \<longrightarrow> getAllVideoElementsFrom doc sels [] =
          (filter validElement (doc (sels ! i)), take (Suc i) sels))
   \<and> ((\<forall>s\<in>set sels. filter validElement (doc s) = [])
    \<longrightarrow> getAllVideoElementsFrom doc sels [] = ([], sels))"
  using cascade_first[of i sels doc "[]"] cascade_all_empty[of sels doc "[]"] by simp

text \<open>
  C6 at a document where the third selector is the first with valid elements: three
  selectors are queried, the fourth is not; and at an empty document.
\<close>

theorem selector_cascade_witness:
  "getAllVideoElementsFrom exampleDocument selectors [] =
     ([\<lparr>href = ''/watch?v=abc''\<rparr>, \<lparr>href = ''/shorts/xyz''\<rparr>],
      [''a#video-title'', ''a.ytd-video-renderer'', ''a.yt-simple-endpoint''])
   \<and> getAllVideoElementsFrom (\<lambda>sel. []) selectors [] = ([], selectors)"
proof -
  have a: "(2::nat) < length selectors" by code_simp
  have b: "filter validElement (exampleDocument (selectors ! 2)) =
             [\<lparr>href = ''/watch?v=abc''\<rparr>, \<lparr>href = ''/shorts/xyz''\<rparr>]" by code_simp
  have c: "\<forall>j<2. filter validElement (exampleDocument (selectors ! j)) = []"
  proof (intro allI impI)
    fix j :: nat assume "j < 2"
    then have "j = 0 \<or> j = 1" by auto
    moreover have "filter validElement (exampleDocument (selectors ! 0)) = []" by code_simp
    moreover have "filter validElement (exampleDocument (selectors ! 1)) = []" by code_simp
    ultimately show "filter validElement (exampleDocument (selectors ! j)) = []" by auto
  qed
  have d: "take (Suc 2) selectors =
     [''a#video-title'', ''a.ytd-video-renderer'', ''a.yt-simple-endpoint'']" by code_simp
  show ?thesis
    using selector_cascade[of 2 selectors exampleDocument] selector_cascade[of 0 selectors "\<lambda>sel. []"]
      a b c d by simp
qed





text \<open>
  Claim C9. The loop over the candidates is total. The console holds, candidate by
  candidate and in order, the line that opens its processing followed by the line of the
  \<open>catch\<close> when its processing raised; the results are those of the candidates that
  yielded one, in order. A candidate that raises adds its two lines and no result, and the
  results of the run are those of the run without it.
\<close>

theorem candidate_errors_are_skipped:
  "console (processCandidates browse keywords exact links) =
     concat (map (candidateLines browse keywords exact) links)
   \<and> transcriptResults (processCandidates browse keywords exact links) =
     concat (map (candidateResults browse keywords exact) links)
   \<and> (processVideo browse keywords exact u = Inl message \<longrightarrow>
        candidateLines browse keywords exact u =
          [''Processing: '' @ u, ''Error processing '' @ u @ '': '' @ message]
        \<and> candidateResults browse keywords exact u = []
        \<and> transcriptResults (processCandidates browse keywords exact (before @ u # after)) =
          transcriptResults (processCandidates browse keywords exact (before @ after)))"
proof -
  have "processVideo browse keywords exact u = Inl message \<longrightarrow>
        candidateLines browse keywords exact u =
          [''Processing: '' @ u, ''Error processing '' @ u @ '': '' @ message]
        \<and> candidateResults browse keywords exact u = []"
    by (simp add: candidateLines_def candidateResults_def)
  moreover from this have "processVideo browse keywords exact u = Inl message \<longrightarrow>
        transcriptResults (processCandidates browse keywords exact (before @ u # after)) =
          transcriptResults (processCandidates browse keywords exact (before @ after))"
    by (simp add: processCandidates_concat)
  ultimately show ?thesis
    using processCandidates_concat by blast
qed

text \<open>C9 at two candidates of which the first raises during navigation.\<close>

theorem candidate_errors_are_skipped_witness:
  "processVideo exampleBrowser [''ai agent'', ''ai''] False failingUrl =
     Inl ''Navigation timeout of 30000 ms exceeded''
   \<and> console (processCandidates exampleBrowser [''ai agent'', ''ai''] False [failingUrl, shortsUrl]) =
     [''Processing: https://www.youtube.com/watch?v=bad'',
      ''Error processing https://www.youtube.com/watch?v=bad: Navigation timeout of 30000 ms exceeded'',
      ''Processing: https://www.youtube.com/shorts/abc'']
   \<and> map videoId (transcriptResults
        (processCandidates exampleBrowser [''ai agent'', ''ai''] False [failingUrl, shortsUrl])) = [''abc'']
   \<and> transcriptResults
        (processCandidates exampleBrowser [''ai agent'', ''ai''] False [failingUrl, shortsUrl]) =
      transcriptResults (processCandidates exampleBrowser [''ai agent'', ''ai''] False [shortsUrl])"
proof -
  let ?PC = "processCandidates exampleBrowser [''ai agent'', ''ai''] False"
  have a: "processVideo exampleBrowser [''ai agent'', ''ai''] False failingUrl =
     Inl ''Navigation timeout of 30000 ms exceeded''" by code_simp
  have b: "concat (map (candidateLines exampleBrowser [''ai agent'', ''ai''] False)
       [failingUrl, shortsUrl]) =
     [''Processing: https://www.youtube.com/watch?v=bad'',
      ''Error processing https://www.youtube.com/watch?v=bad: Navigation timeout of 30000 ms exceeded'',
      ''Processing: https://www.youtube.com/shorts/abc'']" by code_simp
  have c: "map videoId (concat (map (candidateResults exampleBrowser [''ai agent'', ''ai''] False)
       [failingUrl, shortsUrl])) = [''abc'']" by code_simp
  note t = candidate_errors_are_skipped[of exampleBrowser "[''ai agent'', ''ai'']" False
      "[failingUrl, shortsUrl]" failingUrl "''Navigation timeout of 30000 ms exceeded''"
      "[]" "[shortsUrl]"]
  from t have t1: "console (?PC [failingUrl, shortsUrl]) =
      concat (map (candidateLines exampleBrowser [''ai agent'', ''ai''] False)
        [failingUrl, shortsUrl])" by (rule conjunct1)
  from t have t2: "transcriptResults (?PC [failingUrl, shortsUrl]) =
      concat (map (candidateResults exampleBrowser [''ai agent'', ''ai''] False)
        [failingUrl, shortsUrl])" by blast
  from t a have "transcriptResults (?PC ([] @ failingUrl # [shortsUrl])) =
      transcriptResults (?PC ([] @ [shortsUrl]))" by blast
  then have g3: "transcriptResults (?PC [failingUrl, shortsUrl]) =
      transcriptResults (?PC [shortsUrl])" by (simp only: append_Nil)
  from t1 b have g1: "console (?PC [failingUrl, shortsUrl]) =
     [''Processing: https://www.youtube.com/watch?v=bad'',
      ''Error processing https://www.youtube.com/watch?v=bad: Navigation timeout of 30000 ms exceeded'',
      ''Processing: https://www.youtube.com/shorts/abc'']" by (rule trans)
  from c have g2: "map videoId (transcriptResults (?PC [failingUrl, shortsUrl])) = [''abc'']"
    by (simp only: t2)
  from a g1 g2 g3 show ?thesis by blast
qed

text \<open>
  Claim C10. The link of every retained match is the candidate's link followed by \<open>&t=\<close>
  and the precise seconds; when the candidate's link has no question mark, neither has the
  link of the match.
\<close>

theorem match_url_appends_offset:
  "m \<in> set (uniqueMatches (keywordMatches videoUrl keywords exact segments)) \<Longrightarrow>
   url m = videoUrl @ ''&t='' @ toString (preciseTimeSeconds m)
   \<and> (CHR ''?'' \<notin> set videoUrl \<longrightarrow> CHR ''?'' \<notin> set (url m))"
proof -
  assume "m \<in> set (uniqueMatches (keywordMatches videoUrl keywords exact segments))"
  with set_uniqueMatches have "m \<in> set (keywordMatches videoUrl keywords exact segments)"
    by blast
  then obtain i kw where "m = makeMatch videoUrl segments i kw"
    by (auto simp: set_keywordMatches)
  then have u: "url m = videoUrl @ ''&t='' @ toString (preciseTimeSeconds m)"
    by (simp add: makeMatch_def Let_def)
  with toString_no_question[of "preciseTimeSeconds m"] show ?thesis by auto
qed

text \<open>C10 at a short-form link.\<close>

theorem match_url_appends_offset_witness:
  "\<lparr>keyword = ''ai agent'', originalTimestamp = ''00:20'', preciseTimestamp = ''00:21'',
     preciseTimeSeconds = Val 21, match_text = ''an ai agent appeared'',
     url = ''https://www.youtube.com/shorts/abc&t=21''\<rparr>
     \<in> set (uniqueMatches (keywordMatches shortsUrl [''ai agent'', ''ai''] False orderedSegments))
   \<and> CHR ''?'' \<notin> set shortsUrl
   \<and> CHR ''?'' \<notin> set ''https://www.youtube.com/shorts/abc&t=21''"
proof -
  let ?m = "\<lparr>keyword = ''ai agent'', originalTimestamp = ''00:20'', preciseTimestamp = ''00:21'',
     preciseTimeSeconds = Val 21, match_text = ''an ai agent appeared'',
     url = ''https://www.youtube.com/shorts/abc&t=21''\<rparr>"
  have mem: "?m \<in> set (uniqueMatches
      (keywordMatches shortsUrl [''ai agent'', ''ai''] False orderedSegments))"
    by (simp only: ordered_matches list.set insertI1)
  have q: "CHR ''?'' \<notin> set shortsUrl" by code_simp
  from match_url_appends_offset[OF mem] q have "CHR ''?'' \<notin> set (url ?m)" by blast
  then have "CHR ''?'' \<notin> set ''https://www.youtube.com/shorts/abc&t=21''"
    by (simp only: keyword_match.select_convs simp_thms)
  with mem q show ?thesis by blast
qed

end
